theory Spec2Isabelle
  imports Main "HOL-Library.Word"
begin

section \<open>Python errors\<close>

text \<open>
  The exceptions the modelled code can raise. A method that raises returns \<open>Inl\<close> of the
  exception; a method that returns normally returns \<open>Inr\<close> of its value.
\<close>

datatype py_error = AttributeError | KeyError | IndexError | ValueError | RuntimeError

section \<open>Vocab\<close>

text \<open>
  \<^verbatim>\<open>
  class Vocab:
      def __init__(self, unk_symbol='<unk>', is_label=False):
          self.size = 0
          self.word_to_id = {}
          self.id_to_word = {}
          if not is_label:
              self.unk_symbol = unk_symbol
              self.unk_id = self.add_word(unk_symbol)
  \<close>
  The object is a record of its attributes. The attributes \<open>unk_symbol\<close> and \<open>unk_id\<close>
  exist only when the constructor ran with \<open>is_label=False\<close>; an attribute that was never
  assigned is \<open>None\<close>, and reading it raises \<open>AttributeError\<close>. Python integers are
  unbounded, so identifiers and the size are \<open>int\<close>. The field \<open>size\<close> is named
  \<open>size_v\<close>, since \<open>size\<close> is a constant of HOL.
\<close>

record Vocab =
  size_v :: int
  word_to_id :: "string \<rightharpoonup> int"
  id_to_word :: "int \<rightharpoonup> string"
  unk_symbol :: "string option"
  unk_id :: "int option"

text \<open>
  Every method takes the object and returns its result together with the object as the
  method leaves it.
  \<^verbatim>\<open>
      def add_word(self, w):
          if w not in self.word_to_id:
              self.word_to_id[w] = self.size
              self.id_to_word[self.size] = w
              self.size += 1
          return self.size - 1
  \<close>
\<close>

definition add_word :: "string \<Rightarrow> Vocab \<Rightarrow> int \<times> Vocab" where
  "add_word w self =
     (let self' =
        (if word_to_id self w = None
         then self\<lparr>word_to_id := (word_to_id self)(w \<mapsto> size_v self),
                   id_to_word := (id_to_word self)(size_v self \<mapsto> w),
                   size_v := size_v self + 1\<rparr>
         else self)
      in (size_v self' - 1, self'))"

definition Vocab_init :: "string \<Rightarrow> bool \<Rightarrow> Vocab" where
  "Vocab_init unk is_label =
     (let self = \<lparr>size_v = 0, word_to_id = Map.empty, id_to_word = Map.empty,
                   unk_symbol = None, unk_id = None\<rparr>
      in if \<not> is_label
         then (let self1 = self\<lparr>unk_symbol := Some unk\<rparr>;
                   r = add_word unk self1
               in (snd r)\<lparr>unk_id := Some (fst r)\<rparr>)
         else self)"

text \<open>
  \<^verbatim>\<open>
      def to_id(self, w):
         return self.word_to_id[w] if w in self.word_to_id else self.unk_id
      def to_word(self, id):
         return self.id_to_word[id] if id in self.id_to_word else self.unk_symbol
      def __len__(self):
          return self.size
  \<close>
\<close>

definition to_id :: "string \<Rightarrow> Vocab \<Rightarrow> (py_error + int) \<times> Vocab" where
  "to_id w self =
     (case word_to_id self w of
        Some i \<Rightarrow> (Inr i, self)
      | None \<Rightarrow> (case unk_id self of
                   Some u \<Rightarrow> (Inr u, self)
                 | None \<Rightarrow> (Inl AttributeError, self)))"

definition to_word :: "int \<Rightarrow> Vocab \<Rightarrow> (py_error + string) \<times> Vocab" where
  "to_word i self =
     (case id_to_word self i of
        Some w \<Rightarrow> (Inr w, self)
      | None \<Rightarrow> (case unk_symbol self of
                   Some u \<Rightarrow> (Inr u, self)
                 | None \<Rightarrow> (Inl AttributeError, self)))"

definition len_v :: "Vocab \<Rightarrow> int \<times> Vocab" where
  "len_v self = (size_v self, self)"

text \<open>
  The vocabulary-building loop of the notebooks,
  \<^verbatim>\<open>for w in ws: vocab.add_word(w)\<close>, whose return values are dropped.
\<close>

fun add_words :: "string list \<Rightarrow> Vocab \<Rightarrow> Vocab" where
  "add_words [] self = self"
| "add_words (w # ws) self = add_words ws (snd (add_word w self))"

text \<open>
  The tokens handed to \<open>add_word\<close> since the object was created, in call order: the
  constructor's own call on the unknown token first, when it makes one.
\<close>

definition added :: "string \<Rightarrow> bool \<Rightarrow> string list \<Rightarrow> string list" where
  "added unk is_label ws = (if is_label then ws else unk # ws)"

text \<open>
  The number of distinct tokens handed to \<open>add_word\<close> before the first call with \<open>w\<close>:
  the position of \<open>w\<close> among the distinct tokens in first-seen order, counted from 0.
\<close>

definition distinct_before :: "string \<Rightarrow> string list \<Rightarrow> nat" where
  "distinct_before w seq = card (set (takeWhile (\<lambda>x. x \<noteq> w) seq))"

text \<open>
  The invariant of the object after the calls \<open>seq\<close>, used in the proofs below.
\<close>

definition vocab_inv :: "string list \<Rightarrow> Vocab \<Rightarrow> bool" where
  "vocab_inv seq v \<longleftrightarrow>
     size_v v = int (card (set seq)) \<and>
     (\<forall>w. word_to_id v w =
        (if w \<in> set seq then Some (int (distinct_before w seq)) else None)) \<and>
     (\<forall>i w. id_to_word v i = Some w \<longleftrightarrow> word_to_id v w = Some i)"

section \<open>Padding and collation\<close>

text \<open>
  The notebook builds every example as a pair of \<^verbatim>\<open>torch.tensor(ids)\<close>, a tensor of
  rank 1 and dtype \<^verbatim>\<open>torch.int64\<close>, and \<^verbatim>\<open>torch.tensor(label_id)\<close>, an
  \<^verbatim>\<open>int64\<close> scalar. A rank-1 tensor is the list of its entries; the stacked batch, of
  rank 2, is the list of its rows.
\<close>

type_synonym int64 = "64 word"
type_synonym tensor1 = "int64 list"
type_synonym tensor2 = "int64 list list"

text \<open>
  A rank-1 tensor has the dimensions 0 and -1 (the same one, counted from the end);
  \<^verbatim>\<open>vec.shape[dim]\<close>, \<^verbatim>\<open>vec.size(dim)\<close> and \<^verbatim>\<open>pad_size[dim] = ...\<close> raise
  \<open>IndexError\<close> at any other \<open>dim\<close>.
\<close>

definition shape_at :: "tensor1 \<Rightarrow> int \<Rightarrow> py_error + int" where
  "shape_at vec d = (if d = 0 \<or> d = - 1 then Inr (int (length vec)) else Inl IndexError)"

text \<open>
  \<^verbatim>\<open>torch.zeros(n, dtype=torch.int64)\<close> raises \<open>RuntimeError\<close> at a negative \<open>n\<close>.
\<close>

definition torch_zeros :: "int \<Rightarrow> py_error + tensor1" where
  "torch_zeros n = (if n < 0 then Inl RuntimeError else Inr (replicate (nat n) 0))"

text \<open>
  \<^verbatim>\<open>
  def pad_tensor(vec, pad, dim):
          pad_size = list(vec.shape)
          pad_size[dim] = pad - vec.size(dim)
          return torch.cat([vec, torch.zeros(*pad_size, dtype=torch.int64)], dim=dim)
  \<close>
\<close>

definition pad_tensor :: "tensor1 \<Rightarrow> int \<Rightarrow> int \<Rightarrow> py_error + tensor1" where
  "pad_tensor vec pad d =
     (case shape_at vec d of
        Inl e \<Rightarrow> Inl e
      | Inr n \<Rightarrow> (case torch_zeros (pad - n) of
                   Inl e \<Rightarrow> Inl e
                 | Inr z \<Rightarrow> Inr (vec @ z)))"

text \<open>Python's \<^verbatim>\<open>max\<close> of an iterable raises \<open>ValueError\<close> when it is empty.\<close>

fun py_max :: "int list \<Rightarrow> py_error + int" where
  "py_max [] = Inl ValueError"
| "py_max (x # xs) = Inr (fold max xs x)"

text \<open>
  \<^verbatim>\<open>map\<close> with a function that may raise: the first exception ends the traversal.
\<close>

fun map_err :: "('a \<Rightarrow> py_error + 'b) \<Rightarrow> 'a list \<Rightarrow> py_error + 'b list" where
  "map_err f [] = Inr []"
| "map_err f (x # xs) =
     (case f x of
        Inl e \<Rightarrow> Inl e
      | Inr y \<Rightarrow> (case map_err f xs of Inl e \<Rightarrow> Inl e | Inr ys \<Rightarrow> Inr (y # ys)))"

text \<open>
  \<^verbatim>\<open>torch.stack(ts, dim=0)\<close> raises \<open>RuntimeError\<close> on an empty list and on tensors of
  different sizes; otherwise the tensors are the rows of its result, in order.
\<close>

definition torch_stack :: "tensor1 list \<Rightarrow> py_error + tensor2" where
  "torch_stack ts =
     (case ts of
        [] \<Rightarrow> Inl RuntimeError
      | t # _ \<Rightarrow> (if list_all (\<lambda>u. length u = length t) ts then Inr ts else Inl RuntimeError))"

text \<open>
  \<^verbatim>\<open>
  class PadCollate:
      def __init__(self, dim):
          self.dim = dim
      def pad_collate(self, batch):
          max_len = max(map(lambda x: x[0].shape[self.dim], batch))
          batch = list(map(lambda b:
                      (pad_tensor(b[0], pad=max_len, dim=self.dim), b[1]), batch))
          xs = torch.stack(list(map(lambda x: x[0], batch)), dim=0)
          ys = torch.LongTensor(list(map(lambda x: x[1], batch)))
          return xs, ys
      def __call__(self, batch):
          return self.pad_collate(batch)
  \<close>
  \<^verbatim>\<open>torch.LongTensor\<close> of a list of \<^verbatim>\<open>int64\<close> scalars is the rank-1 tensor of these
  scalars.
\<close>

record PadCollate =
  dim :: int

definition pad_collate :: "PadCollate \<Rightarrow> (tensor1 \<times> int64) list \<Rightarrow> py_error + tensor2 \<times> tensor1" where
  "pad_collate self batch =
     (case map_err (\<lambda>x. shape_at (fst x) (dim self)) batch of
        Inl e \<Rightarrow> Inl e
      | Inr lens \<Rightarrow>
     (case py_max lens of
        Inl e \<Rightarrow> Inl e
      | Inr max_len \<Rightarrow>
     (case map_err (\<lambda>b. case pad_tensor (fst b) max_len (dim self) of
                           Inl e \<Rightarrow> Inl e
                         | Inr p \<Rightarrow> Inr (p, snd b)) batch of
        Inl e \<Rightarrow> Inl e
      | Inr batch' \<Rightarrow>
     (case torch_stack (map fst batch') of
        Inl e \<Rightarrow> Inl e
      | Inr xs \<Rightarrow> Inr (xs, map snd batch')))))"

definition PadCollate_call :: "PadCollate \<Rightarrow> (tensor1 \<times> int64) list \<Rightarrow> py_error + tensor2 \<times> tensor1" where
  "PadCollate_call self batch = pad_collate self batch"

text \<open>
  The greatest length of a sequence of the batch, and a sequence filled up with zeros
  at its end to a given length: the terms in which the results of \<open>pad_collate\<close> are
  stated.
\<close>

definition max_length :: "(tensor1 \<times> int64) list \<Rightarrow> nat" where
  "max_length batch = Max (set (map (\<lambda>b. length (fst b)) batch))"

definition padded :: "nat \<Rightarrow> tensor1 \<Rightarrow> tensor1" where
  "padded n s = s @ replicate (n - length s) 0"

section \<open>Tokenizer\<close>

text \<open>
  A Python string is modelled by the list of the bytes of its UTF-8 encoding; the space
  character is the single byte 0x20, which occurs in no other character's encoding, so
  splitting at spaces is the same on bytes as on code points.

  \<open>split_at P text\<close> cuts \<open>text\<close> at every character that satisfies \<open>P\<close> and drops
  these characters; \<open>n\<close> of them give \<open>n + 1\<close> pieces, some of which may be empty.
  \<^verbatim>\<open>text.split(' ')\<close> is \<open>split_at\<close> at the characters equal to the space.
\<close>

fun split_at :: "(char \<Rightarrow> bool) \<Rightarrow> string \<Rightarrow> string list" where
  "split_at P [] = [[]]"
| "split_at P (c # cs) =
     (if P c then [] # split_at P cs
      else (case split_at P cs of [] \<Rightarrow> [[c]] | t # ts \<Rightarrow> (c # t) # ts))"

definition str_split :: "char \<Rightarrow> string \<Rightarrow> string list" where
  "str_split sep text = split_at (\<lambda>c. c = sep) text"

text \<open>
  \<^verbatim>\<open>
  class Tokenizer:
      def __init__(self, lowercase=False):
          self.lowercase = lowercase
      def __call__(self, text):
          return [w.lower() if self.lowercase else w for w in text.split(' ')]
  \<close>
  \<^verbatim>\<open>str.lower\<close> is a built-in of Python, not code of the notebooks: the model takes it as
  the parameter \<open>lower\<close>.
\<close>

record Tokenizer =
  lowercase :: bool

definition Tokenizer_call :: "(string \<Rightarrow> string) \<Rightarrow> Tokenizer \<Rightarrow> string \<Rightarrow> string list" where
  "Tokenizer_call lower self text =
     map (\<lambda>w. if lowercase self then lower w else w) (str_split (CHR '' '') text)"

text \<open>
  \<^verbatim>\<open>str.lower\<close> on the ASCII letters, to run the tokenizer on concrete texts.
\<close>

definition ascii_lower :: "string \<Rightarrow> string" where
  "ascii_lower w =
     map (\<lambda>c. if 65 \<le> (of_char c :: nat) \<and> (of_char c :: nat) \<le> 90
              then char_of ((of_char c :: nat) + 32) else c) w"

text \<open>
  \<^verbatim>\<open>sep.join(ts)\<close> for a separator of one character.
\<close>

fun str_join :: "char \<Rightarrow> string list \<Rightarrow> string" where
  "str_join sep [] = []"
| "str_join sep [t] = t"
| "str_join sep (t # u # ts) = t @ sep # str_join sep (u # ts)"

text \<open>
  The specification's words for the tokenizer, ``whitespace-delimited splitting'': the
  text is cut at every whitespace character. The whitespace characters are the ASCII
  characters for which \<^verbatim>\<open>str.isspace\<close> holds: tab, line feed, vertical tab, form feed,
  carriage return, the four separators 0x1C to 0x1F, and the space.
\<close>

definition is_whitespace :: "char \<Rightarrow> bool" where
  "is_whitespace c \<longleftrightarrow>
     c \<in> set [CHR 0x09, CHR 0x0A, CHR 0x0B, CHR 0x0C, CHR 0x0D,
               CHR 0x1C, CHR 0x1D, CHR 0x1E, CHR 0x1F, CHR 0x20]"

definition spec_whitespace_split :: "string \<Rightarrow> string list" where
  "spec_whitespace_split text = split_at is_whitespace text"

section \<open>Properties of the vocabulary\<close>

subsection \<open>The invariant\<close>

lemma distinct_before_less:
  assumes "w \<in> set seq"
  shows "distinct_before w seq < card (set seq)"
proof -
  have "set (takeWhile (\<lambda>x. x \<noteq> w) seq) \<subseteq> set seq - {w}"
    using set_takeWhileD by fastforce
  moreover have "set seq - {w} \<subset> set seq"
    using assms by blast
  ultimately have "set (takeWhile (\<lambda>x. x \<noteq> w) seq) \<subset> set seq"
    by blast
  then show ?thesis
    unfolding distinct_before_def by (simp add: psubset_card_mono)
qed

lemma distinct_before_snoc_old:
  "x \<in> set seq \<Longrightarrow> distinct_before x (seq @ [w]) = distinct_before x seq"
  by (simp add: distinct_before_def takeWhile_append1)

lemma distinct_before_snoc_new:
  "w \<notin> set seq \<Longrightarrow> distinct_before w (seq @ [w]) = card (set seq)"
proof -
  assume "w \<notin> set seq"
  then have "takeWhile (\<lambda>x. x \<noteq> w) (seq @ [w]) = seq"
    by (induction seq) auto
  then show ?thesis by (simp add: distinct_before_def)
qed

lemma vocab_inv_empty:
  "vocab_inv [] \<lparr>size_v = 0, word_to_id = Map.empty, id_to_word = Map.empty,
                   unk_symbol = u, unk_id = k\<rparr>"
  by (simp add: vocab_inv_def)

lemma add_word_present:
  "word_to_id v w \<noteq> None \<Longrightarrow> add_word w v = (size_v v - 1, v)"
  by (simp add: add_word_def)

lemma add_word_absent:
  assumes "word_to_id v w = None"
  shows "fst (add_word w v) = size_v v"
    and "word_to_id (snd (add_word w v)) w = Some (size_v v)"
    and "id_to_word (snd (add_word w v)) (size_v v) = Some w"
    and "size_v (snd (add_word w v)) = size_v v + 1"
  using assms by (simp_all add: add_word_def)

lemma vocab_inv_add_word:
  assumes "vocab_inv seq v"
  shows "vocab_inv (seq @ [w]) (snd (add_word w v))"
proof (cases "w \<in> set seq")
  case True
  with assms have "word_to_id v w \<noteq> None" by (simp add: vocab_inv_def)
  then have "snd (add_word w v) = v" by (simp add: add_word_present)
  moreover have "set (seq @ [w]) = set seq" using True by auto
  ultimately show ?thesis
    using assms True unfolding vocab_inv_def
    by (simp add: distinct_before_snoc_old)
next
  case False
  with assms have absent: "word_to_id v w = None" by (simp add: vocab_inv_def)
  let ?n = "size_v v"
  have n: "?n = int (card (set seq))" using assms by (simp add: vocab_inv_def)
  have v': "snd (add_word w v) =
      v\<lparr>word_to_id := (word_to_id v)(w \<mapsto> ?n),
        id_to_word := (id_to_word v)(?n \<mapsto> w), size_v := ?n + 1\<rparr>"
    using absent by (simp add: add_word_def)
  have lt: "\<And>x. x \<in> set seq \<Longrightarrow> word_to_id v x \<noteq> Some ?n"
  proof -
    fix x assume x: "x \<in> set seq"
    then have "word_to_id v x = Some (int (distinct_before x seq))"
      using assms by (simp add: vocab_inv_def)
    moreover have "distinct_before x seq < card (set seq)"
      using x by (rule distinct_before_less)
    ultimately show "word_to_id v x \<noteq> Some ?n" using n by simp
  qed
  have nokey: "\<And>x. word_to_id v x \<noteq> Some ?n"
  proof -
    fix x show "word_to_id v x \<noteq> Some ?n"
      using lt[of x] assms by (cases "x \<in> set seq") (simp_all add: vocab_inv_def)
  qed
  have size': "size_v (snd (add_word w v)) = int (card (set (seq @ [w])))"
    using False n by (simp add: v')
  have fwd: "\<And>x. word_to_id (snd (add_word w v)) x =
      (if x \<in> set (seq @ [w]) then Some (int (distinct_before x (seq @ [w]))) else None)"
  proof -
    fix x
    show "word_to_id (snd (add_word w v)) x =
      (if x \<in> set (seq @ [w]) then Some (int (distinct_before x (seq @ [w]))) else None)"
    proof (cases "x = w")
      case True
      then show ?thesis using False n by (simp add: v' distinct_before_snoc_new)
    next
      case neq: False
      then show ?thesis using assms
        by (simp add: v' vocab_inv_def distinct_before_snoc_old)
    qed
  qed
  have inv: "\<And>i x. id_to_word (snd (add_word w v)) i = Some x \<longleftrightarrow>
      word_to_id (snd (add_word w v)) x = Some i"
  proof -
    fix i x
    have old: "id_to_word v i = Some x \<longleftrightarrow> word_to_id v x = Some i"
      using assms by (simp add: vocab_inv_def)
    show "id_to_word (snd (add_word w v)) i = Some x \<longleftrightarrow>
      word_to_id (snd (add_word w v)) x = Some i"
      using old absent nokey[of x] by (auto simp: v')
  qed
  show ?thesis unfolding vocab_inv_def using size' fwd inv by blast
qed

lemma vocab_inv_add_words:
  "vocab_inv seq v \<Longrightarrow> vocab_inv (seq @ ws) (add_words ws v)"
proof (induction ws arbitrary: seq v)
  case Nil
  then show ?case by simp
next
  case (Cons w ws)
  from Cons.prems have "vocab_inv (seq @ [w]) (snd (add_word w v))"
    by (rule vocab_inv_add_word)
  then have "vocab_inv ((seq @ [w]) @ ws) (add_words ws (snd (add_word w v)))"
    by (rule Cons.IH)
  then show ?case by simp
qed

lemma add_word_unk: "unk_symbol (snd (add_word w v)) = unk_symbol v"
  "unk_id (snd (add_word w v)) = unk_id v"
  by (simp_all add: add_word_def)

lemma add_words_unk: "unk_symbol (add_words ws v) = unk_symbol v"
  "unk_id (add_words ws v) = unk_id v"
  by (induction ws arbitrary: v) (simp_all add: add_word_unk)

lemma Vocab_init_label:
  "Vocab_init unk True = \<lparr>size_v = 0, word_to_id = Map.empty, id_to_word = Map.empty,
                   unk_symbol = None, unk_id = None\<rparr>"
  by (simp add: Vocab_init_def)

lemma Vocab_init_text:
  "Vocab_init unk False = \<lparr>size_v = 1, word_to_id = [unk \<mapsto> 0], id_to_word = [0 \<mapsto> unk],
                   unk_symbol = Some unk, unk_id = Some 0\<rparr>"
  by (simp add: Vocab_init_def add_word_def)

lemma vocab_inv_init: "vocab_inv (added unk is_label []) (Vocab_init unk is_label)"
proof (cases is_label)
  case True
  then show ?thesis by (simp add: added_def Vocab_init_label vocab_inv_empty)
next
  case False
  have "vocab_inv ([] @ [unk]) (snd (add_word unk \<lparr>size_v = 0, word_to_id = Map.empty, id_to_word = Map.empty,
                   unk_symbol = Some unk, unk_id = None\<rparr>))"
    by (rule vocab_inv_add_word) (rule vocab_inv_empty)
  then have "vocab_inv [unk] ((snd (add_word unk \<lparr>size_v = 0, word_to_id = Map.empty, id_to_word = Map.empty,
                   unk_symbol = Some unk, unk_id = None\<rparr>))\<lparr>unk_id := Some 0\<rparr>)"
    by (simp add: vocab_inv_def)
  then show ?thesis using False by (simp add: added_def Vocab_init_def add_word_def)
qed

lemma vocab_inv_build:
  "vocab_inv (added unk is_label ws) (add_words ws (Vocab_init unk is_label))"
proof -
  have "vocab_inv (added unk is_label [] @ ws) (add_words ws (Vocab_init unk is_label))"
    by (rule vocab_inv_add_words) (rule vocab_inv_init)
  then show ?thesis by (cases is_label) (simp_all add: added_def)
qed

lemma distinct_before_append:
  "x \<in> set seq \<Longrightarrow> distinct_before x (seq @ ys) = distinct_before x seq"
  by (simp add: distinct_before_def takeWhile_append1)

lemma vocab_inv_ran:
  assumes "vocab_inv seq v"
  shows "ran (word_to_id v) = {0 ..< size_v v}"
proof -
  let ?f = "\<lambda>w. int (distinct_before w seq)"
  have n: "size_v v = int (card (set seq))"
    using assms by (simp add: vocab_inv_def)
  have fwd: "\<And>w. word_to_id v w = (if w \<in> set seq then Some (?f w) else None)"
    using assms by (simp add: vocab_inv_def)
  have bwd: "\<And>i w. id_to_word v i = Some w \<longleftrightarrow> word_to_id v w = Some i"
    using assms by (simp add: vocab_inv_def)
  have ran_eq: "ran (word_to_id v) = ?f ` set seq"
    unfolding ran_def using fwd by (auto split: if_splits)
  have sub: "?f ` set seq \<subseteq> {0 ..< size_v v}"
    using distinct_before_less n by fastforce
  have inj: "inj_on ?f (set seq)"
  proof (rule inj_onI)
    fix a b assume a: "a \<in> set seq" and b: "b \<in> set seq" and eq: "?f a = ?f b"
    have "word_to_id v a = Some (?f a)" using a fwd by simp
    then have 1: "id_to_word v (?f a) = Some a" using bwd by simp
    have "word_to_id v b = Some (?f a)" using b fwd eq by simp
    then have 2: "id_to_word v (?f a) = Some b" using bwd by simp
    from 1 2 show "a = b" by simp
  qed
  have "card (?f ` set seq) = card (set seq)"
    using inj by (rule card_image)
  then have "card (?f ` set seq) = card {0 ..< size_v v}"
    using n by simp
  with sub have "?f ` set seq = {0 ..< size_v v}"
    by (simp add: card_subset_eq)
  with ran_eq show ?thesis by simp
qed

lemma vocab_inv_dom_fwd:
  assumes "vocab_inv seq v"
  shows "dom (word_to_id v) = set seq"
  using assms unfolding vocab_inv_def dom_def by (auto split: if_splits)

lemma vocab_inv_dom_bwd:
  assumes "vocab_inv seq v"
  shows "dom (id_to_word v) = {0 ..< size_v v}"
proof -
  have bwd: "\<And>i w. id_to_word v i = Some w \<longleftrightarrow> word_to_id v w = Some i"
    using assms by (simp add: vocab_inv_def)
  have "dom (id_to_word v) = ran (word_to_id v)"
    unfolding dom_def ran_def using bwd by auto
  then show ?thesis using vocab_inv_ran[OF assms] by simp
qed

lemma built_unk:
  "unk_symbol (add_words ws (Vocab_init unk is_label)) = (if is_label then None else Some unk)"
  "unk_id (add_words ws (Vocab_init unk is_label)) = (if is_label then None else Some 0)"
  by (cases is_label; simp add: add_words_unk Vocab_init_label Vocab_init_text)+

subsection \<open>Identifiers\<close>

text \<open>
  Claim C2. After the constructor and any sequence \<open>ws\<close> of \<open>add_word\<close> calls, with
  \<open>seq\<close> the tokens added in call order (the unknown token first when the vocabulary
  has one): the size is the number of distinct tokens added; the tokens that have an
  identifier are the tokens added; the identifiers in use are exactly \<open>0, ..., size - 1\<close>;
  a token's identifier is the number of distinct tokens added before its first
  occurrence, so the i-th distinct token has identifier i; the unknown token, when there
  is one, has identifier 0; \<open>word_to_id\<close> and \<open>id_to_word\<close> are inverses of each other,
  and each holds exactly size entries.
\<close>

theorem vocab_ids_contiguous_first_seen:
  fixes unk :: string and is_label :: bool and ws :: "string list"
  defines "v \<equiv> add_words ws (Vocab_init unk is_label)"
  defines "seq \<equiv> added unk is_label ws"
  shows "fst (len_v v) = int (card (set seq)) \<and>
         dom (word_to_id v) = set seq \<and>
         ran (word_to_id v) = {0 ..< fst (len_v v)} \<and>
         (\<forall>w \<in> set seq. word_to_id v w = Some (int (distinct_before w seq))) \<and>
         (\<not> is_label \<longrightarrow> word_to_id v unk = Some 0) \<and>
         (\<forall>w i. word_to_id v w = Some i \<longleftrightarrow> id_to_word v i = Some w) \<and>
         dom (id_to_word v) = {0 ..< fst (len_v v)} \<and>
         int (card (dom (word_to_id v))) = fst (len_v v) \<and>
         int (card (dom (id_to_word v))) = fst (len_v v)"
proof -
  have inv: "vocab_inv seq v"
    unfolding v_def seq_def by (rule vocab_inv_build)
  have n: "fst (len_v v) = int (card (set seq))"
    using inv by (simp add: len_v_def vocab_inv_def)
  have len: "fst (len_v v) = size_v v" by (simp add: len_v_def)
  have d1: "dom (word_to_id v) = set seq" using inv by (rule vocab_inv_dom_fwd)
  have r: "ran (word_to_id v) = {0 ..< fst (len_v v)}"
    using vocab_inv_ran[OF inv] len by simp
  have fs: "\<forall>w \<in> set seq. word_to_id v w = Some (int (distinct_before w seq))"
    using inv by (simp add: vocab_inv_def)
  have u: "\<not> is_label \<longrightarrow> word_to_id v unk = Some 0"
  proof
    assume "\<not> is_label"
    then have "seq = unk # ws" by (simp add: seq_def added_def)
    then have "unk \<in> set seq" and "distinct_before unk seq = 0"
      by (simp_all add: distinct_before_def)
    then show "word_to_id v unk = Some 0" using fs by simp
  qed
  have mi: "\<forall>w i. word_to_id v w = Some i \<longleftrightarrow> id_to_word v i = Some w"
    using inv by (simp add: vocab_inv_def)
  have d2: "dom (id_to_word v) = {0 ..< fst (len_v v)}"
    using vocab_inv_dom_bwd[OF inv] len by simp
  have c1: "int (card (dom (word_to_id v))) = fst (len_v v)"
    using d1 n by simp
  have c2: "int (card (dom (id_to_word v))) = fst (len_v v)"
    using d2 n by simp
  from n d1 r fs u mi d2 c1 c2 show ?thesis by blast
qed



theorem vocab_ids_contiguous_first_seen_witness:
  "''b'' \<in> set (added ''<unk>'' False [''a'', ''b'', ''a'', ''c'']) \<and>
   \<not> False \<and>
   word_to_id (add_words [''a'', ''b'', ''a'', ''c''] (Vocab_init ''<unk>'' False)) ''b'' = Some 2 \<and>
   word_to_id (add_words [''a'', ''b'', ''a'', ''c''] (Vocab_init ''<unk>'' False)) ''<unk>'' = Some 0 \<and>
   fst (len_v (add_words [''a'', ''b'', ''a'', ''c''] (Vocab_init ''<unk>'' False))) = 4"
proof -
  note th = vocab_ids_contiguous_first_seen
    [where ws = "[''a'', ''b'', ''a'', ''c'']" and unk = "''<unk>''" and is_label = False]
  have m: "''b'' \<in> set (added ''<unk>'' False [''a'', ''b'', ''a'', ''c''])"
    by (simp add: added_def)
  have d: "distinct_before ''b'' (added ''<unk>'' False [''a'', ''b'', ''a'', ''c'']) = 2"
    by (simp add: distinct_before_def added_def)
  have c: "card (set (added ''<unk>'' False [''a'', ''b'', ''a'', ''c''])) = 4"
    by code_simp
  from th m have
    "word_to_id (add_words [''a'', ''b'', ''a'', ''c''] (Vocab_init ''<unk>'' False)) ''b'' =
       Some (int (distinct_before ''b'' (added ''<unk>'' False [''a'', ''b'', ''a'', ''c''])))"
    by blast
  with d have b: "word_to_id (add_words [''a'', ''b'', ''a'', ''c''] (Vocab_init ''<unk>'' False)) ''b'' = Some 2"
    by simp
  from th have u: "word_to_id (add_words [''a'', ''b'', ''a'', ''c''] (Vocab_init ''<unk>'' False)) ''<unk>'' = Some 0"
    by blast
  from th c have n: "fst (len_v (add_words [''a'', ''b'', ''a'', ''c''] (Vocab_init ''<unk>'' False))) = 4"
    by simp
  from m b u n show ?thesis by simp
qed

subsection \<open>What \<open>add_word\<close> returns\<close>

text \<open>
  Claim C1 says that \<open>add_word\<close> on a token that is already present returns the
  identifier of that token. The method returns \<open>size - 1\<close> on every path, which is the
  identifier of the token inserted last. In a label vocabulary built by adding
  \<open>pos\<close> and then \<open>neg\<close>, adding \<open>pos\<close> again returns 1, while \<open>pos\<close> has the
  identifier 0 in \<open>word_to_id\<close>, and \<open>to_id\<close> returns 0 for it before and after the call.
\<close>

theorem add_word_present_returns_last_id:
  "fst (add_word ''pos'' (add_words [''pos'', ''neg''] (Vocab_init ''<unk>'' True))) = 1 \<and>
   word_to_id (add_words [''pos'', ''neg''] (Vocab_init ''<unk>'' True)) ''pos'' = Some 0 \<and>
   fst (to_id ''pos'' (add_words [''pos'', ''neg''] (Vocab_init ''<unk>'' True))) = Inr 0 \<and>
   fst (to_id ''pos'' (snd (add_word ''pos''
      (add_words [''pos'', ''neg''] (Vocab_init ''<unk>'' True))))) = Inr 0"
  by (simp add: add_word_def Vocab_init_def to_id_def)

subsection \<open>Looking a token up\<close>

text \<open>
  Claim C3. On a vocabulary built by the constructor and the calls \<open>ws\<close>, \<open>to_id w\<close>
  returns the identifier that \<open>word_to_id\<close> holds for \<open>w\<close> when there is one, which is
  the case for every token added. For a token that was not added, a vocabulary built
  with the unknown token returns the unknown token's identifier, which is 0, and a label
  vocabulary (\<open>is_label=True\<close>) raises: the attribute \<open>unk_id\<close> that the lookup falls
  back to was never set, which Python reports as \<open>AttributeError\<close>.
\<close>

theorem to_id_present_unknown_error:
  fixes unk :: string and is_label :: bool and ws :: "string list" and w :: string
  defines "v \<equiv> add_words ws (Vocab_init unk is_label)"
  defines "seq \<equiv> added unk is_label ws"
  shows "(\<forall>i. word_to_id v w = Some i \<longrightarrow> fst (to_id w v) = Inr i) \<and>
         (w \<in> set seq \<longrightarrow> (\<exists>i. word_to_id v w = Some i)) \<and>
         (w \<notin> set seq \<and> \<not> is_label \<longrightarrow>
            word_to_id v w = None \<and> unk_id v = Some 0 \<and> word_to_id v unk = Some 0 \<and>
            fst (to_id w v) = Inr 0) \<and>
         (w \<notin> set seq \<and> is_label \<longrightarrow>
            word_to_id v w = None \<and> fst (to_id w v) = Inl AttributeError)"
proof -
  have inv: "vocab_inv seq v"
    unfolding v_def seq_def by (rule vocab_inv_build)
  have fwd: "\<And>x. word_to_id v x = (if x \<in> set seq then Some (int (distinct_before x seq)) else None)"
    using inv by (simp add: vocab_inv_def)
  have 1: "\<forall>i. word_to_id v w = Some i \<longrightarrow> fst (to_id w v) = Inr i"
    by (simp add: to_id_def)
  have 2: "w \<in> set seq \<longrightarrow> (\<exists>i. word_to_id v w = Some i)"
    using fwd by simp
  have 3: "w \<notin> set seq \<and> \<not> is_label \<longrightarrow>
            word_to_id v w = None \<and> unk_id v = Some 0 \<and> word_to_id v unk = Some 0 \<and>
            fst (to_id w v) = Inr 0"
  proof
    assume a: "w \<notin> set seq \<and> \<not> is_label"
    then have none: "word_to_id v w = None" using fwd by simp
    have uid: "unk_id v = Some 0" using a by (simp add: v_def built_unk)
    have "seq = unk # ws" using a by (simp add: seq_def added_def)
    then have "unk \<in> set seq" and "distinct_before unk seq = 0"
      by (simp_all add: distinct_before_def)
    then have "word_to_id v unk = Some 0" using fwd by simp
    with none uid show "word_to_id v w = None \<and> unk_id v = Some 0 \<and> word_to_id v unk = Some 0 \<and>
            fst (to_id w v) = Inr 0"
      by (simp add: to_id_def)
  qed
  have 4: "w \<notin> set seq \<and> is_label \<longrightarrow>
            word_to_id v w = None \<and> fst (to_id w v) = Inl AttributeError"
  proof
    assume a: "w \<notin> set seq \<and> is_label"
    then have none: "word_to_id v w = None" using fwd by simp
    have "unk_id v = None" using a by (simp add: v_def built_unk)
    with none show "word_to_id v w = None \<and> fst (to_id w v) = Inl AttributeError"
      by (simp add: to_id_def)
  qed
  from 1 2 3 4 show ?thesis by blast
qed

theorem to_id_present_unknown_error_witness:
  "''pos'' \<in> set (added ''<unk>'' True [''pos'', ''neg'', ''pos'']) \<and>
   word_to_id (add_words [''pos'', ''neg'', ''pos''] (Vocab_init ''<unk>'' True)) ''neg'' = Some 1 \<and>
   fst (to_id ''neg'' (add_words [''pos'', ''neg'', ''pos''] (Vocab_init ''<unk>'' True))) = Inr 1 \<and>
   ''neutral'' \<notin> set (added ''<unk>'' True [''pos'', ''neg'', ''pos'']) \<and> True \<and>
   fst (to_id ''neutral'' (add_words [''pos'', ''neg'', ''pos''] (Vocab_init ''<unk>'' True)))
     = Inl AttributeError \<and>
   ''z'' \<notin> set (added ''<unk>'' False [''a'', ''b'', ''a'', ''c'']) \<and> \<not> False \<and>
   fst (to_id ''z'' (add_words [''a'', ''b'', ''a'', ''c''] (Vocab_init ''<unk>'' False))) = Inr 0"
proof -
  have p: "''pos'' \<in> set (added ''<unk>'' True [''pos'', ''neg'', ''pos''])"
    by (simp add: added_def)
  have w: "word_to_id (add_words [''pos'', ''neg'', ''pos''] (Vocab_init ''<unk>'' True)) ''neg'' = Some 1"
    by (simp add: add_word_def Vocab_init_def)
  have n: "''neutral'' \<notin> set (added ''<unk>'' True [''pos'', ''neg'', ''pos''])"
    by (simp add: added_def)
  have z: "''z'' \<notin> set (added ''<unk>'' False [''a'', ''b'', ''a'', ''c''])"
    by (simp add: added_def)
  have 1: "fst (to_id ''neg'' (add_words [''pos'', ''neg'', ''pos''] (Vocab_init ''<unk>'' True))) = Inr 1"
    using w to_id_present_unknown_error
      [where ws = "[''pos'', ''neg'', ''pos'']" and unk = "''<unk>''" and is_label = True
         and w = "''neg''"]
    by blast
  have 2: "fst (to_id ''neutral'' (add_words [''pos'', ''neg'', ''pos''] (Vocab_init ''<unk>'' True)))
     = Inl AttributeError"
    using n to_id_present_unknown_error
      [where ws = "[''pos'', ''neg'', ''pos'']" and unk = "''<unk>''" and is_label = True
         and w = "''neutral''"]
    by blast
  have 3: "fst (to_id ''z'' (add_words [''a'', ''b'', ''a'', ''c''] (Vocab_init ''<unk>'' False))) = Inr 0"
    using z to_id_present_unknown_error
      [where ws = "[''a'', ''b'', ''a'', ''c'']" and unk = "''<unk>''" and is_label = False
         and w = "''z''"]
    by blast
  from p w n z 1 2 3 show ?thesis by simp
qed

lemma add_words_append: "add_words (ws @ ws') v = add_words ws' (add_words ws v)"
  by (induction ws arbitrary: v) simp_all

lemma added_append: "added unk is_label (ws @ ws') = added unk is_label ws @ ws'"
  by (simp add: added_def)

lemma to_id_frame: "snd (to_id w v) = v"
  by (simp add: to_id_def split: option.splits)

lemma to_word_frame: "snd (to_word i v) = v"
  by (simp add: to_word_def split: option.splits)

subsection \<open>Round trips\<close>

text \<open>
  Claim C4. On a vocabulary built by the constructor and the calls \<open>ws\<close>, every token
  \<open>t\<close> among \<open>ws\<close> has an identifier \<open>i\<close> that \<open>to_id t\<close> returns, returns again when
  called a second time, and still returns after any further \<open>add_word\<close> calls; and
  \<open>to_word i\<close> returns \<open>t\<close>. In a vocabulary built with the unknown token, \<open>to_word\<close>
  returns the unknown token's string for every identifier that \<open>id_to_word\<close> does not
  hold.
\<close>

theorem to_id_stable_to_word_inverse:
  fixes unk :: string and is_label :: bool and ws :: "string list" and t :: string and j :: int
  defines "v \<equiv> add_words ws (Vocab_init unk is_label)"
  shows "(t \<in> set ws \<longrightarrow>
           (\<exists>i. fst (to_id t v) = Inr i \<and>
                fst (to_id t (snd (to_id t v))) = Inr i \<and>
                (\<forall>ws'. fst (to_id t (add_words ws' v)) = Inr i) \<and>
                fst (to_word i v) = Inr t)) \<and>
         (\<not> is_label \<and> j \<notin> dom (id_to_word v) \<longrightarrow> fst (to_word j v) = Inr unk)"
proof -
  let ?seq = "added unk is_label ws"
  have inv: "vocab_inv ?seq v"
    unfolding v_def by (rule vocab_inv_build)
  have a: "t \<in> set ws \<longrightarrow>
           (\<exists>i. fst (to_id t v) = Inr i \<and>
                fst (to_id t (snd (to_id t v))) = Inr i \<and>
                (\<forall>ws'. fst (to_id t (add_words ws' v)) = Inr i) \<and>
                fst (to_word i v) = Inr t)"
  proof
    assume "t \<in> set ws"
    then have mem: "t \<in> set ?seq" by (simp add: added_def)
    let ?i = "int (distinct_before t ?seq)"
    have fwd: "word_to_id v t = Some ?i"
      using inv mem by (simp add: vocab_inv_def)
    then have 1: "fst (to_id t v) = Inr ?i" by (simp add: to_id_def)
    then have 2: "fst (to_id t (snd (to_id t v))) = Inr ?i" by (simp add: to_id_frame)
    have 3: "\<forall>ws'. fst (to_id t (add_words ws' v)) = Inr ?i"
    proof
      fix ws'
      have "vocab_inv (added unk is_label (ws @ ws')) (add_words (ws @ ws') (Vocab_init unk is_label))"
        by (rule vocab_inv_build)
      then have "vocab_inv (?seq @ ws') (add_words ws' v)"
        by (simp add: added_append add_words_append v_def)
      then have "word_to_id (add_words ws' v) t = Some (int (distinct_before t (?seq @ ws')))"
        using mem by (simp add: vocab_inv_def)
      then have "word_to_id (add_words ws' v) t = Some ?i"
        using mem by (simp add: distinct_before_append)
      then show "fst (to_id t (add_words ws' v)) = Inr ?i" by (simp add: to_id_def)
    qed
    have "id_to_word v ?i = Some t"
      using inv fwd by (simp add: vocab_inv_def)
    then have 4: "fst (to_word ?i v) = Inr t" by (simp add: to_word_def)
    from 1 2 3 4 show "\<exists>i. fst (to_id t v) = Inr i \<and>
                fst (to_id t (snd (to_id t v))) = Inr i \<and>
                (\<forall>ws'. fst (to_id t (add_words ws' v)) = Inr i) \<and>
                fst (to_word i v) = Inr t"
      by blast
  qed
  have b: "\<not> is_label \<and> j \<notin> dom (id_to_word v) \<longrightarrow> fst (to_word j v) = Inr unk"
  proof
    assume h: "\<not> is_label \<and> j \<notin> dom (id_to_word v)"
    then have "id_to_word v j = None" by (simp add: domIff)
    moreover have "unk_symbol v = Some unk" using h by (simp add: v_def built_unk)
    ultimately show "fst (to_word j v) = Inr unk" by (simp add: to_word_def)
  qed
  from a b show ?thesis by blast
qed

theorem to_id_stable_to_word_inverse_witness:
  "''b'' \<in> set [''a'', ''b'', ''a'', ''c''] \<and>
   fst (to_id ''b'' (add_words [''a'', ''b'', ''a'', ''c''] (Vocab_init ''<unk>'' False))) = Inr 2 \<and>
   fst (to_word 2 (add_words [''a'', ''b'', ''a'', ''c''] (Vocab_init ''<unk>'' False))) = Inr ''b'' \<and>
   \<not> False \<and>
   7 \<notin> dom (id_to_word (add_words [''a'', ''b'', ''a'', ''c''] (Vocab_init ''<unk>'' False))) \<and>
   fst (to_word 7 (add_words [''a'', ''b'', ''a'', ''c''] (Vocab_init ''<unk>'' False))) = Inr ''<unk>''"
proof -
  note th = to_id_stable_to_word_inverse
    [where ws = "[''a'', ''b'', ''a'', ''c'']" and unk = "''<unk>''" and is_label = False
       and t = "''b''" and j = 7]
  have m: "''b'' \<in> set [''a'', ''b'', ''a'', ''c'']" by simp
  have i: "fst (to_id ''b'' (add_words [''a'', ''b'', ''a'', ''c''] (Vocab_init ''<unk>'' False))) = Inr 2"
    by (simp add: add_word_def Vocab_init_def to_id_def)
  from th m i have w: "fst (to_word 2 (add_words [''a'', ''b'', ''a'', ''c''] (Vocab_init ''<unk>'' False))) = Inr ''b''"
    by auto
  have d: "7 \<notin> dom (id_to_word (add_words [''a'', ''b'', ''a'', ''c''] (Vocab_init ''<unk>'' False)))"
    by (simp add: add_word_def Vocab_init_def)
  from th d have u: "fst (to_word 7 (add_words [''a'', ''b'', ''a'', ''c''] (Vocab_init ''<unk>'' False))) = Inr ''<unk>''"
    by blast
  from m i w d u show ?thesis by simp
qed

text \<open>
  Claim C5. On a vocabulary built by the constructor and the calls \<open>ws\<close>, the size
  \<open>N\<close> is the number of distinct tokens inserted, the unknown token counted when the
  constructor inserted it, and the results of \<open>to_word i\<close> for \<open>0 \<le> i < N\<close> are exactly
  the inserted tokens, each returned normally.
\<close>

theorem to_word_range_recovers_tokens:
  fixes unk :: string and is_label :: bool and ws :: "string list"
  defines "v \<equiv> add_words ws (Vocab_init unk is_label)"
  shows "fst (len_v v) = int (card (set (added unk is_label ws))) \<and>
         (\<lambda>i. fst (to_word i v)) ` {0 ..< fst (len_v v)} = Inr ` set (added unk is_label ws)"
proof -
  let ?seq = "added unk is_label ws"
  have inv: "vocab_inv ?seq v"
    unfolding v_def by (rule vocab_inv_build)
  have len: "fst (len_v v) = size_v v" by (simp add: len_v_def)
  have n: "fst (len_v v) = int (card (set ?seq))"
    using inv by (simp add: len_v_def vocab_inv_def)
  have bwd: "\<And>i w. id_to_word v i = Some w \<longleftrightarrow> word_to_id v w = Some i"
    using inv by (simp add: vocab_inv_def)
  have "(\<lambda>i. fst (to_word i v)) ` {0 ..< fst (len_v v)} = Inr ` set ?seq"
  proof (rule set_eqI)
    fix r
    show "r \<in> (\<lambda>i. fst (to_word i v)) ` {0 ..< fst (len_v v)} \<longleftrightarrow> r \<in> Inr ` set ?seq"
    proof
      assume "r \<in> (\<lambda>i. fst (to_word i v)) ` {0 ..< fst (len_v v)}"
      then obtain i where i: "i \<in> {0 ..< size_v v}" and r: "r = fst (to_word i v)"
        using len by auto
      from i have "i \<in> dom (id_to_word v)"
        using vocab_inv_dom_bwd[OF inv] by simp
      then obtain w where w: "id_to_word v i = Some w" by blast
      then have "word_to_id v w = Some i" using bwd by simp
      then have "w \<in> dom (word_to_id v)" by blast
      then have "w \<in> set ?seq" using vocab_inv_dom_fwd[OF inv] by simp
      moreover have "r = Inr w" using r w by (simp add: to_word_def)
      ultimately show "r \<in> Inr ` set ?seq" by blast
    next
      assume "r \<in> Inr ` set ?seq"
      then obtain w where w: "w \<in> set ?seq" and r: "r = Inr w" by blast
      from w have "w \<in> dom (word_to_id v)" using vocab_inv_dom_fwd[OF inv] by simp
      then obtain i where f: "word_to_id v w = Some i" by blast
      then have "i \<in> ran (word_to_id v)" by (auto simp: ran_def)
      then have i: "i \<in> {0 ..< fst (len_v v)}" using vocab_inv_ran[OF inv] len by simp
      from f have "id_to_word v i = Some w" using bwd by simp
      then have "fst (to_word i v) = r" using r by (simp add: to_word_def)
      with i show "r \<in> (\<lambda>i. fst (to_word i v)) ` {0 ..< fst (len_v v)}" by blast
    qed
  qed
  with n show ?thesis by blast
qed

subsection \<open>Frame\<close>

text \<open>
  Claim C10. In every state of the object, \<open>to_id\<close>, \<open>to_word\<close> and \<open>__len__\<close> leave the
  object as it was, whatever they return or raise, and so does \<open>add_word\<close> on a token
  that \<open>word_to_id\<close> already holds: all attributes, \<open>word_to_id\<close>, \<open>id_to_word\<close> and
  \<open>size\<close> among them, are the same after the call.
\<close>

theorem vocab_queries_leave_state:
  "snd (to_id w v) = v \<and> snd (to_word i v) = v \<and> snd (len_v v) = v \<and>
   (w \<in> dom (word_to_id v) \<longrightarrow> snd (add_word w v) = v)"
  by (auto simp: to_id_frame to_word_frame len_v_def add_word_def)

theorem vocab_queries_leave_state_witness:
  "''a'' \<in> dom (word_to_id (add_words [''a'', ''b''] (Vocab_init ''<unk>'' False))) \<and>
   snd (add_word ''a'' (add_words [''a'', ''b''] (Vocab_init ''<unk>'' False))) =
     add_words [''a'', ''b''] (Vocab_init ''<unk>'' False) \<and>
   snd (to_id ''a'' (add_words [''a'', ''b''] (Vocab_init ''<unk>'' False))) =
     add_words [''a'', ''b''] (Vocab_init ''<unk>'' False)"
proof -
  have d: "''a'' \<in> dom (word_to_id (add_words [''a'', ''b''] (Vocab_init ''<unk>'' False)))"
    by (simp add: add_word_def Vocab_init_def)
  with vocab_queries_leave_state
    [where w = "''a''" and v = "add_words [''a'', ''b''] (Vocab_init ''<unk>'' False)"]
  show ?thesis by blast
qed

section \<open>Properties of padding and collation\<close>

lemma map_err_total:
  "(\<And>x. x \<in> set xs \<Longrightarrow> f x = Inr (g x)) \<Longrightarrow> map_err f xs = Inr (map g xs)"
  by (induction xs) simp_all

lemma py_max_lengths:
  assumes "batch \<noteq> []"
  shows "py_max (map (\<lambda>b. int (length (fst b))) batch) = Inr (int (max_length batch))"
proof -
  obtain b bs where batch: "batch = b # bs" using assms by (cases batch) auto
  let ?ls = "map (\<lambda>b. length (fst b)) batch"
  have ne: "set ?ls \<noteq> {}" using assms by simp
  have "py_max (map (\<lambda>b. int (length (fst b))) batch)
      = Inr (Max (set (map (\<lambda>b. int (length (fst b))) batch)))"
    unfolding batch using Max.set_eq_fold[of "int (length (fst b))" "map (\<lambda>b. int (length (fst b))) bs"]
    by simp
  also have "set (map (\<lambda>b. int (length (fst b))) batch) = int ` set ?ls"
    by auto
  also have "Max (int ` set ?ls) = int (Max (set ?ls))"
    using ne by (simp add: mono_Max_commute[symmetric] monoI)
  finally show ?thesis by (simp add: max_length_def)
qed

lemma length_le_max_length:
  "b \<in> set batch \<Longrightarrow> length (fst b) \<le> max_length batch"
  by (simp add: max_length_def)

lemma pad_tensor_le:
  assumes "d = 0 \<or> d = - 1" and "length s \<le> n"
  shows "pad_tensor s (int n) d = Inr (padded n s)"
proof -
  have "nat (int n - int (length s)) = n - length s" by simp
  then show ?thesis
    using assms by (auto simp: pad_tensor_def shape_at_def torch_zeros_def padded_def)
qed

lemma length_padded: "length s \<le> n \<Longrightarrow> length (padded n s) = n"
  by (simp add: padded_def)

lemma torch_stack_same:
  assumes "ts \<noteq> []" and "\<And>t. t \<in> set ts \<Longrightarrow> length t = n"
  shows "torch_stack ts = Inr ts"
proof -
  obtain t tl where ts: "ts = t # tl" using assms(1) by (cases ts) auto
  have "list_all (\<lambda>u. length u = length t) ts"
    using assms(2) by (simp add: ts list_all_iff)
  then show ?thesis by (simp add: torch_stack_def ts)
qed

lemma pad_collate_result:
  assumes ne: "batch \<noteq> []" and d: "dim self = 0 \<or> dim self = - 1"
  shows "pad_collate self batch =
     Inr (map (\<lambda>b. padded (max_length batch) (fst b)) batch, map snd batch)"
proof -
  let ?m = "max_length batch"
  have lens: "map_err (\<lambda>x. shape_at (fst x) (dim self)) batch
      = Inr (map (\<lambda>b. int (length (fst b))) batch)"
    using d by (intro map_err_total) (auto simp: shape_at_def)
  have mx: "py_max (map (\<lambda>b. int (length (fst b))) batch) = Inr (int ?m)"
    using ne by (rule py_max_lengths)
  have pads: "map_err (\<lambda>b. case pad_tensor (fst b) (int ?m) (dim self) of
                           Inl e \<Rightarrow> Inl e
                         | Inr p \<Rightarrow> Inr (p, snd b)) batch
      = Inr (map (\<lambda>b. (padded ?m (fst b), snd b)) batch)"
  proof (rule map_err_total)
    fix b assume "b \<in> set batch"
    then have "length (fst b) \<le> ?m" by (rule length_le_max_length)
    then have "pad_tensor (fst b) (int ?m) (dim self) = Inr (padded ?m (fst b))"
      using d by (simp add: pad_tensor_le)
    then show "(case pad_tensor (fst b) (int ?m) (dim self) of
                           Inl e \<Rightarrow> Inl e
                         | Inr p \<Rightarrow> Inr (p, snd b)) = Inr (padded ?m (fst b), snd b)"
      by simp
  qed
  let ?rows = "map (\<lambda>b. padded ?m (fst b)) batch"
  have rows: "map fst (map (\<lambda>b. (padded ?m (fst b), snd b)) batch) = ?rows"
    by simp
  have labels: "map snd (map (\<lambda>b. (padded ?m (fst b), snd b)) batch) = map snd batch"
    by simp
  have "torch_stack ?rows = Inr ?rows"
  proof (rule torch_stack_same)
    show "?rows \<noteq> []" using ne by simp
  next
    fix t assume "t \<in> set ?rows"
    then obtain b where "b \<in> set batch" and "t = padded ?m (fst b)" by auto
    then show "length t = ?m"
      by (simp add: length_padded length_le_max_length)
  qed
  then show ?thesis
    by (simp only: pad_collate_def lens mx pads rows labels sum.case)
qed


text \<open>
  Claim C6. For every non-empty batch of pairs of a sequence and a label, and a padding
  dimension that the sequences have (0, or -1 for the same axis), \<open>pad_collate\<close>
  returns normally, with one row per pair; every row has the greatest length of a
  sequence of the batch; the first entries of row \<open>i\<close> are the sequence of pair \<open>i\<close>,
  unchanged; and the entries after them are all zero.
\<close>

theorem pad_collate_pads_to_max:
  assumes "batch \<noteq> []" and "dim self = 0 \<or> dim self = - 1"
  shows "\<exists>xs ys. pad_collate self batch = Inr (xs, ys) \<and> length xs = length batch \<and>
     (\<forall>i < length batch.
        length (xs ! i) = max_length batch \<and>
        take (length (fst (batch ! i))) (xs ! i) = fst (batch ! i) \<and>
        drop (length (fst (batch ! i))) (xs ! i) =
          replicate (max_length batch - length (fst (batch ! i))) 0)"
proof -
  let ?xs = "map (\<lambda>b. padded (max_length batch) (fst b)) batch"
  have r: "pad_collate self batch = Inr (?xs, map snd batch)"
    using assms by (rule pad_collate_result)
  have rows: "\<forall>i < length batch.
        length (?xs ! i) = max_length batch \<and>
        take (length (fst (batch ! i))) (?xs ! i) = fst (batch ! i) \<and>
        drop (length (fst (batch ! i))) (?xs ! i) =
          replicate (max_length batch - length (fst (batch ! i))) 0"
  proof (intro allI impI)
    fix i assume i: "i < length batch"
    then have "batch ! i \<in> set batch" by simp
    then have le: "length (fst (batch ! i)) \<le> max_length batch"
      by (rule length_le_max_length)
    have row: "?xs ! i = padded (max_length batch) (fst (batch ! i))"
      using i by simp
    show "length (?xs ! i) = max_length batch \<and>
        take (length (fst (batch ! i))) (?xs ! i) = fst (batch ! i) \<and>
        drop (length (fst (batch ! i))) (?xs ! i) =
          replicate (max_length batch - length (fst (batch ! i))) 0"
      unfolding row using le by (simp add: padded_def)
  qed
  have "length ?xs = length batch" by simp
  with r rows show ?thesis by blast
qed

theorem pad_collate_pads_to_max_witness:
  "[([1, 2, 3], 0), ([4, 5], 1)] \<noteq> ([] :: (tensor1 \<times> int64) list) \<and>
   (dim \<lparr>dim = 0\<rparr> = 0 \<or> dim \<lparr>dim = 0\<rparr> = - 1) \<and>
   (1::nat) < length [([1, 2, 3], 0), ([4, 5], 1 :: int64) :: tensor1 \<times> int64] \<and>
   max_length [([1, 2, 3], 0), ([4, 5], 1)] = 3 \<and>
   (\<exists>xs ys. pad_collate \<lparr>dim = 0\<rparr> [([1, 2, 3], 0), ([4, 5], 1)] = Inr (xs, ys) \<and>
      xs = [[1, 2, 3], [4, 5, 0]] \<and>
      length (xs ! 1) = 3 \<and> take 2 (xs ! 1) = [4, 5] \<and> drop 2 (xs ! 1) = [0])"
proof -
  let ?batch = "[([1, 2, 3], 0), ([4, 5], 1)] :: (tensor1 \<times> int64) list"
  have ne: "?batch \<noteq> []" by simp
  have d: "dim \<lparr>dim = 0\<rparr> = 0 \<or> dim \<lparr>dim = 0\<rparr> = - 1" by simp
  have m: "max_length ?batch = 3" by (simp add: max_length_def)
  have e: "pad_collate \<lparr>dim = 0\<rparr> ?batch = Inr ([[1, 2, 3], [4, 5, 0]], [0, 1])"
    by code_simp
  obtain xs ys where r: "pad_collate \<lparr>dim = 0\<rparr> ?batch = Inr (xs, ys)"
    and rows: "\<forall>i < length ?batch.
        length (xs ! i) = max_length ?batch \<and>
        take (length (fst (?batch ! i))) (xs ! i) = fst (?batch ! i) \<and>
        drop (length (fst (?batch ! i))) (xs ! i) =
          replicate (max_length ?batch - length (fst (?batch ! i))) 0"
    using pad_collate_pads_to_max[OF ne d] by blast
  from r e have xs: "xs = [[1, 2, 3], [4, 5, 0]]" by simp
  have i: "(1::nat) < length ?batch" by simp
  from rows i have "length (xs ! 1) = max_length ?batch \<and>
        take (length (fst (?batch ! 1))) (xs ! 1) = fst (?batch ! 1) \<and>
        drop (length (fst (?batch ! 1))) (xs ! 1) =
          replicate (max_length ?batch - length (fst (?batch ! 1))) 0"
    by blast
  then have "length (xs ! 1) = 3 \<and> take 2 (xs ! 1) = [4, 5] \<and> drop 2 (xs ! 1) = [0]"
    using m by (simp add: numeral_3_eq_3 numeral_2_eq_2)
  with ne d i m r xs show ?thesis by blast
qed

text \<open>
  Claim C7. For every non-empty batch and a padding dimension that the sequences have,
  \<open>pad_collate\<close> returns as many rows and as many labels as the batch has pairs, in the
  order of the batch: row \<open>i\<close> is what \<open>pad_tensor\<close> makes of the sequence of pair \<open>i\<close>,
  and label \<open>i\<close> is the label of pair \<open>i\<close>, so the labels are those of the batch,
  unchanged.
\<close>

theorem pad_collate_keeps_order:
  assumes "batch \<noteq> []" and "dim self = 0 \<or> dim self = - 1"
  shows "\<exists>xs ys. pad_collate self batch = Inr (xs, ys) \<and>
     length xs = length batch \<and> length ys = length batch \<and> ys = map snd batch \<and>
     (\<forall>i < length batch.
        pad_tensor (fst (batch ! i)) (int (max_length batch)) (dim self) = Inr (xs ! i) \<and>
        ys ! i = snd (batch ! i))"
proof -
  let ?xs = "map (\<lambda>b. padded (max_length batch) (fst b)) batch"
  let ?ys = "map snd batch"
  have r: "pad_collate self batch = Inr (?xs, ?ys)"
    using assms by (rule pad_collate_result)
  have rows: "\<forall>i < length batch.
        pad_tensor (fst (batch ! i)) (int (max_length batch)) (dim self) = Inr (?xs ! i) \<and>
        ?ys ! i = snd (batch ! i)"
  proof (intro allI impI)
    fix i assume i: "i < length batch"
    then have "batch ! i \<in> set batch" by simp
    then have le: "length (fst (batch ! i)) \<le> max_length batch"
      by (rule length_le_max_length)
    have "pad_tensor (fst (batch ! i)) (int (max_length batch)) (dim self)
        = Inr (padded (max_length batch) (fst (batch ! i)))"
      using assms(2) le by (rule pad_tensor_le)
    then show "pad_tensor (fst (batch ! i)) (int (max_length batch)) (dim self) = Inr (?xs ! i) \<and>
        ?ys ! i = snd (batch ! i)"
      using i by simp
  qed
  have "length ?xs = length batch" and "length ?ys = length batch" by simp_all
  with r rows show ?thesis by blast
qed

theorem pad_collate_keeps_order_witness:
  "[([1, 2, 3], 0), ([4, 5], 1)] \<noteq> ([] :: (tensor1 \<times> int64) list) \<and>
   (dim \<lparr>dim = 0\<rparr> = 0 \<or> dim \<lparr>dim = 0\<rparr> = - 1) \<and>
   (1::nat) < length [([1, 2, 3], 0), ([4, 5], 1 :: int64) :: tensor1 \<times> int64] \<and>
   (\<exists>xs ys. pad_collate \<lparr>dim = 0\<rparr> [([1, 2, 3], 0), ([4, 5], 1)] = Inr (xs, ys) \<and>
      ys = [0, 1] \<and> ys ! 1 = 1 \<and> xs ! 1 = [4, 5, 0] \<and>
      pad_tensor [4, 5] 3 0 = Inr (xs ! 1))"
proof -
  let ?batch = "[([1, 2, 3], 0), ([4, 5], 1)] :: (tensor1 \<times> int64) list"
  have ne: "?batch \<noteq> []" by simp
  have d: "dim \<lparr>dim = 0\<rparr> = 0 \<or> dim \<lparr>dim = 0\<rparr> = - 1" by simp
  have m: "max_length ?batch = 3" by (simp add: max_length_def)
  have i: "(1::nat) < length ?batch" by simp
  obtain xs ys where r: "pad_collate \<lparr>dim = 0\<rparr> ?batch = Inr (xs, ys)"
    and ys: "ys = map snd ?batch"
    and rows: "\<forall>i < length ?batch.
        pad_tensor (fst (?batch ! i)) (int (max_length ?batch)) (dim \<lparr>dim = 0\<rparr>) = Inr (xs ! i) \<and>
        ys ! i = snd (?batch ! i)"
    using pad_collate_keeps_order[OF ne d] by blast
  from rows i have "pad_tensor (fst (?batch ! 1)) (int (max_length ?batch)) (dim \<lparr>dim = 0\<rparr>) = Inr (xs ! 1) \<and>
        ys ! 1 = snd (?batch ! 1)"
    by blast
  then have p: "pad_tensor [4, 5] 3 0 = Inr (xs ! 1)" and l: "ys ! 1 = 1"
    using m by simp_all
  have "pad_tensor [4, 5] 3 0 = Inr [4, 5, 0]" by code_simp
  with p have x: "xs ! 1 = [4, 5, 0]" by simp
  from ys have y: "ys = [0, 1]" by simp
  from ne d i r y l x p show ?thesis by blast
qed

text \<open>
  Claim C8. For a batch of exactly one pair and a padding dimension that the sequence
  has, \<open>pad_collate\<close> returns that sequence as the only row, with nothing appended, and
  its label as the only label.
\<close>

theorem pad_collate_single_is_identity:
  assumes "dim self = 0 \<or> dim self = - 1"
  shows "pad_collate self [(s, l)] = Inr ([s], [l])"
proof -
  have "pad_collate self [(s, l)] =
     Inr (map (\<lambda>b. padded (max_length [(s, l)]) (fst b)) [(s, l)], map snd [(s, l)])"
    using assms by (intro pad_collate_result) simp_all
  moreover have "max_length [(s, l)] = length s" by (simp add: max_length_def)
  ultimately show ?thesis by (simp add: padded_def)
qed

theorem pad_collate_single_is_identity_witness:
  "(dim \<lparr>dim = - 1\<rparr> = 0 \<or> dim \<lparr>dim = - 1\<rparr> = - 1) \<and>
   pad_collate \<lparr>dim = - 1\<rparr> [([4, 5, 0, 7], 1)] = Inr ([[4, 5, 0, 7]], [1])"
proof -
  have d: "dim \<lparr>dim = - 1\<rparr> = 0 \<or> dim \<lparr>dim = - 1\<rparr> = - 1" by simp
  from d pad_collate_single_is_identity[OF d, of "[4, 5, 0, 7]" 1] show ?thesis by blast
qed

section \<open>Properties of the tokenizer\<close>

lemma split_at_nonempty: "split_at P text \<noteq> []"
  by (induction "text") (auto split: list.splits)

lemma split_at_pieces:
  "t \<in> set (split_at P text) \<Longrightarrow> c \<in> set t \<Longrightarrow> \<not> P c"
proof (induction "text" arbitrary: t)
  case Nil
  then show ?case by simp
next
  case (Cons a cs)
  obtain u us where s: "split_at P cs = u # us"
    using split_at_nonempty[of P cs] by (cases "split_at P cs") auto
  show ?case
  proof (cases "P a")
    case True
    with Cons.prems have "t = [] \<or> t \<in> set (split_at P cs)" by simp
    with Cons show ?thesis by auto
  next
    case False
    with Cons.prems s have "t = a # u \<or> t \<in> set us" by simp
    then show ?thesis
    proof
      assume "t = a # u"
      with Cons.prems(2) have "c = a \<or> c \<in> set u" by simp
      then show ?thesis using False Cons.IH[of u] s by auto
    next
      assume "t \<in> set us"
      then have "t \<in> set (split_at P cs)" using s by simp
      then show ?thesis using Cons.IH Cons.prems(2) by blast
    qed
  qed
qed

lemma str_join_Cons_char: "str_join sep ((c # t) # ts) = c # str_join sep (t # ts)"
  by (cases ts) simp_all

lemma str_join_split: "str_join sep (str_split sep text) = text"
proof (induction "text")
  case Nil
  then show ?case by (simp add: str_split_def)
next
  case (Cons a cs)
  obtain u us where s: "split_at (\<lambda>c. c = sep) cs = u # us"
    using split_at_nonempty[of "\<lambda>c. c = sep" cs]
    by (cases "split_at (\<lambda>c. c = sep) cs") auto
  from Cons have ih: "str_join sep (u # us) = cs" by (simp add: str_split_def s)
  show ?case
  proof (cases "a = sep")
    case True
    then show ?thesis using ih by (simp add: str_split_def s)
  next
    case False
    then show ?thesis using ih by (simp add: str_split_def s str_join_Cons_char)
  qed
qed

lemma split_at_no_sep: "(\<And>c. c \<in> set t \<Longrightarrow> \<not> P c) \<Longrightarrow> split_at P t = [t]"
  by (induction t) simp_all

lemma split_at_append_sep:
  "(\<And>c. c \<in> set t \<Longrightarrow> \<not> P c) \<Longrightarrow> P s \<Longrightarrow> split_at P (t @ s # rest) = t # split_at P rest"
proof (induction t)
  case Nil
  then show ?case by simp
next
  case (Cons a t)
  then have "\<not> P a" by simp
  moreover have "split_at P (t @ s # rest) = t # split_at P rest"
    using Cons by simp
  ultimately show ?case by simp
qed

lemma str_split_join:
  "ts \<noteq> [] \<Longrightarrow> (\<And>t. t \<in> set ts \<Longrightarrow> sep \<notin> set t) \<Longrightarrow> str_split sep (str_join sep ts) = ts"
proof (induction sep ts rule: str_join.induct)
  case (1 sep)
  then show ?case by simp
next
  case (2 sep t)
  then have "\<And>c. c \<in> set t \<Longrightarrow> c \<noteq> sep" by auto
  then show ?case by (simp add: str_split_def split_at_no_sep)
next
  case (3 sep t u ts)
  have t: "\<And>c. c \<in> set t \<Longrightarrow> c \<noteq> sep" using "3.prems"(2)[of t] by auto
  have "str_split sep (str_join sep (u # ts)) = u # ts"
    using 3 by simp
  then have "split_at (\<lambda>c. c = sep) (str_join sep (u # ts)) = u # ts"
    by (simp add: str_split_def)
  moreover have "split_at (\<lambda>c. c = sep) (t @ sep # str_join sep (u # ts))
      = t # split_at (\<lambda>c. c = sep) (str_join sep (u # ts))"
    using t by (intro split_at_append_sep) simp_all
  ultimately show ?case by (simp add: str_split_def)
qed

lemma length_split_at: "length (split_at P text) = Suc (length (filter P text))"
  by (induction "text") (auto split: list.splits simp: split_at_nonempty)

text \<open>
  Claim C9 says that the tokenizer returns the substrings that whitespace delimits.
  The tokenizer cuts at the space character only. On the text of the two letters
  \<open>a\<close> and \<open>b\<close> with one tab between them it returns the whole text as its single
  token, tab included, where whitespace-delimited splitting gives the two tokens \<open>a\<close>
  and \<open>b\<close>. The text has one whitespace character, between two letters, so the result
  of whitespace-delimited splitting does not depend on how runs of whitespace or
  whitespace at the ends are treated.
\<close>

theorem tokenizer_tab_not_delimiter:
  "Tokenizer_call ascii_lower \<lparr>lowercase = False\<rparr> [CHR ''a'', CHR 0x09, CHR ''b'']
     = [[CHR ''a'', CHR 0x09, CHR ''b'']] \<and>
   spec_whitespace_split [CHR ''a'', CHR 0x09, CHR ''b''] = [''a'', ''b''] \<and>
   Tokenizer_call ascii_lower \<lparr>lowercase = False\<rparr> [CHR ''a'', CHR 0x09, CHR ''b'']
     \<noteq> spec_whitespace_split [CHR ''a'', CHR 0x09, CHR ''b'']"
  by (simp add: Tokenizer_call_def str_split_def spec_whitespace_split_def is_whitespace_def)

text \<open>
  Claim C9, amended. For every text and every tokenizer object, the tokenizer returns
  the pieces obtained by cutting the text at every space character, each piece
  lowercased exactly when the flag \<open>lowercase\<close> is set. The pieces \<open>ts\<close> are the one
  non-empty list of strings without a space that gives the text back when joined by
  single spaces; there is one piece more than the text has spaces, so spaces that are
  adjacent or at an end give empty pieces. The result depends on the object through its
  flag only.
\<close>

theorem tokenizer_splits_at_spaces:
  "\<exists>ts. ts \<noteq> [] \<and>
        (\<forall>t \<in> set ts. CHR '' '' \<notin> set t) \<and>
        str_join (CHR '' '') ts = text \<and>
        (\<forall>us. us \<noteq> [] \<and> (\<forall>u \<in> set us. CHR '' '' \<notin> set u) \<and>
              str_join (CHR '' '') us = text \<longrightarrow> us = ts) \<and>
        length ts = Suc (count_list text (CHR '' '')) \<and>
        Tokenizer_call lower self text = (if lowercase self then map lower ts else ts) \<and>
        (\<forall>self'. lowercase self' = lowercase self \<longrightarrow>
              Tokenizer_call lower self' text = Tokenizer_call lower self text)"
proof -
  let ?ts = "str_split (CHR '' '') text"
  have 1: "?ts \<noteq> []" by (simp add: str_split_def split_at_nonempty)
  have 2: "\<forall>t \<in> set ?ts. CHR '' '' \<notin> set t"
    using split_at_pieces[of _ "\<lambda>c. c = CHR '' ''" "text"] by (auto simp: str_split_def)
  have 3: "str_join (CHR '' '') ?ts = text" by (rule str_join_split)
  have 4: "\<forall>us. us \<noteq> [] \<and> (\<forall>u \<in> set us. CHR '' '' \<notin> set u) \<and>
              str_join (CHR '' '') us = text \<longrightarrow> us = ?ts"
  proof (intro allI impI)
    fix us assume h: "us \<noteq> [] \<and> (\<forall>u \<in> set us. CHR '' '' \<notin> set u) \<and>
              str_join (CHR '' '') us = text"
    then have "str_split (CHR '' '') (str_join (CHR '' '') us) = us"
      by (intro str_split_join) auto
    with h show "us = ?ts" by simp
  qed
  have "(\<lambda>c. c = CHR '' '') = (\<lambda>c. CHR '' '' = c)" by auto
  then have 5: "length ?ts = Suc (count_list text (CHR '' ''))"
    by (simp add: str_split_def length_split_at count_list_eq_length_filter)
  have 6: "Tokenizer_call lower self text = (if lowercase self then map lower ?ts else ?ts)"
    by (simp add: Tokenizer_call_def)
  have 7: "\<forall>self'. lowercase self' = lowercase self \<longrightarrow>
              Tokenizer_call lower self' text = Tokenizer_call lower self text"
    by (simp add: Tokenizer_call_def)
  from 1 2 3 4 5 6 7 show ?thesis by blast
qed

theorem tokenizer_splits_at_spaces_witness:
  "[''Climax'', ''is'', '''', ''A'', ''movie''] \<noteq> [] \<and>
   CHR '' '' \<notin> set (concat [''Climax'', ''is'', '''', ''A'', ''movie'']) \<and>
   str_join (CHR '' '') [''Climax'', ''is'', '''', ''A'', ''movie''] = ''Climax is  A movie'' \<and>
   lowercase \<lparr>lowercase = True\<rparr> \<and>
   Tokenizer_call ascii_lower \<lparr>lowercase = True\<rparr> ''Climax is  A movie''
     = [''climax'', ''is'', '''', ''a'', ''movie'']"
proof -
  let ?us = "[''Climax'', ''is'', '''', ''A'', ''movie'']"
  let ?text = "''Climax is  A movie''"
  have a: "?us \<noteq> []" by simp
  have b: "\<forall>u \<in> set ?us. CHR '' '' \<notin> set u" by simp
  have c: "str_join (CHR '' '') ?us = ?text" by simp
  have d: "lowercase \<lparr>lowercase = True\<rparr>" by simp
  obtain ts where u: "\<forall>us. us \<noteq> [] \<and> (\<forall>u \<in> set us. CHR '' '' \<notin> set u) \<and>
              str_join (CHR '' '') us = ?text \<longrightarrow> us = ts"
    and r: "Tokenizer_call ascii_lower \<lparr>lowercase = True\<rparr> ?text
        = (if lowercase \<lparr>lowercase = True\<rparr> then map ascii_lower ts else ts)"
    using tokenizer_splits_at_spaces[of ?text ascii_lower "\<lparr>lowercase = True\<rparr>"] by blast
  from u a b c have "?us = ts" by blast
  with r have "Tokenizer_call ascii_lower \<lparr>lowercase = True\<rparr> ?text = map ascii_lower ?us"
    by simp
  moreover have "map ascii_lower ?us = [''climax'', ''is'', '''', ''a'', ''movie'']"
    by code_simp
  ultimately show ?thesis using a c d by simp
qed

end
